theory Spec2Isabelle
  imports Main "HOL-Library.Word"
begin

section \<open>The visited list of the HNSW index (package visited, list_set.go)\<close>

text \<open>
  The Go source keeps one slice of bytes: slot 0 is the marker (the version of the current
  traversal), slot \<open>node + 1\<close> is the stamp of node \<open>node\<close>. Node ids are \<open>uint64\<close>,
  stamps and marker are \<open>uint8\<close>; both wrap around on overflow. Go's \<open>int\<close> is taken as the
  64-bit two's complement integer of the platforms the package is built for, read from a
  word by \<open>sint\<close>.

  A Go panic ends the call: it is the \<open>Inl\<close> branch of every result. Two run-time panics
  can occur in this file, a slice length that \<open>make\<close> refuses and an index out of range.
  \<open>make\<close> refuses every length above the allocation limit \<open>maxAlloc\<close> of the Go run
  time. Below that limit the exhaustion of the machine's memory (a fatal error that ends
  the process, not a panic of the language) is outside the model.
\<close>

type_synonym uint8 = "8 word"
type_synonym uint64 = "64 word"
type_synonym go_int = "64 word"

datatype panic = MakesliceLenOutOfRange | IndexOutOfRange

text \<open>\<open>type ListSet struct { set []uint8 }\<close>. The nil slice is the empty list.\<close>

record ListSet =
  set_l :: "uint8 list"

definition MaxInt :: int where
  "MaxInt = 2 ^ 63 - 1"

text \<open>
  The allocation limit of the Go run time (\<open>maxAlloc\<close> in \<open>runtime/malloc.go\<close>, a
  constant of the Go distribution, not of this package): \<open>2^48\<close> bytes on the 64-bit
  platforms with 48 address bits (linux/amd64 among them).
\<close>

definition maxAlloc :: int where
  "maxAlloc = 2 ^ 48"

text \<open>
  \<open>make([]uint8, n)\<close>, for the mathematical value \<open>n\<close> of the length expression: a
  zeroed slice, or the panic of \<open>runtime.makeslice\<close> (len out of range) when \<open>n\<close> is
  negative, does not fit an \<open>int\<close>, or asks for more than \<open>maxAlloc\<close> bytes. An element
  is one byte, and \<open>maxAlloc\<close> is below the largest \<open>int\<close>, so the last test covers
  the second.
\<close>

definition make_slice :: "int \<Rightarrow> panic + uint8 list" where
  "make_slice n =
     (if 0 \<le> n \<and> n \<le> maxAlloc then Inr (replicate (nat n) 0)
      else Inl MakesliceLenOutOfRange)"

text \<open>
  The builtin \<open>copy(dst, src)\<close>: the first \<open>min (len dst) (len src)\<close> elements of
  \<open>src\<close> overwrite those of \<open>dst\<close>; the length of \<open>dst\<close> stays.
\<close>

definition copy_slice :: "'a list \<Rightarrow> 'a list \<Rightarrow> 'a list" where
  "copy_slice dst src = take (length dst) src @ drop (length src) dst"

text \<open>\<open>func (l ListSet) Len() uint64 { return uint64(len(l.set)) - 1 }\<close>\<close>

definition Len :: "ListSet \<Rightarrow> uint64" where
  "Len l = of_nat (length (set_l l)) - 1"

text \<open>\<open>func (l *ListSet) Free() { l.set = nil }\<close>\<close>

definition Free :: "ListSet \<Rightarrow> ListSet" where
  "Free l = l\<lparr>set_l := []\<rparr>"

text \<open>
  \<open>NewList(size int)\<close>: \<open>make([]uint8, size+1)\<close>, then \<open>set[0] = 1\<close>. The sum
  \<open>size+1\<close> is computed in \<open>int\<close> and wraps.
\<close>

definition NewList :: "go_int \<Rightarrow> panic + ListSet" where
  "NewList sz =
     (case make_slice (sint (sz + 1)) of
        Inl p \<Rightarrow> Inl p
      | Inr s \<Rightarrow>
          (if 0 < length s then Inr \<lparr>set_l = s[0 := 1]\<rparr> else Inl IndexOutOfRange))"

text \<open>
  The resize branch of \<open>Visit\<close>:
  \<open>newset := make([]uint8, node+1024); copy(newset, l.set); l.set = newset\<close>.
  The sum \<open>node+1024\<close> is computed in \<open>uint64\<close> and wraps.
\<close>

definition resize :: "ListSet \<Rightarrow> uint64 \<Rightarrow> panic + ListSet" where
  "resize l node =
     (case make_slice (uint (node + 1024)) of
        Inl p \<Rightarrow> Inl p
      | Inr newset \<Rightarrow> Inr (l\<lparr>set_l := copy_slice newset (set_l l)\<rparr>))"

text \<open>
  \<open>Visit(node)\<close>: resize when \<open>node >= l.Len()\<close>, then \<open>l.set[node+1] = l.set[0]\<close>.
  The index \<open>node+1\<close> is computed in \<open>uint64\<close> and wraps; the store panics when the
  index is not below the length.
\<close>

definition Visit :: "ListSet \<Rightarrow> uint64 \<Rightarrow> panic + ListSet" where
  "Visit l node =
     (case (if Len l \<le> node then resize l node else Inr l) of
        Inl p \<Rightarrow> Inl p
      | Inr l1 \<Rightarrow>
          (if unat (node + 1) < length (set_l l1)
           then Inr (l1\<lparr>set_l := (set_l l1)[unat (node + 1) := set_l l1 ! 0]\<rparr>)
           else Inl IndexOutOfRange))"

text \<open>
  \<open>Visited(node)\<close>: \<open>node < l.Len() && l.set[node+1] == l.set[0]\<close>. The conjunction
  is short-circuit; the read panics when the index is not below the length.
\<close>

definition Visited :: "ListSet \<Rightarrow> uint64 \<Rightarrow> panic + bool" where
  "Visited l node =
     (if node < Len l
      then (if unat (node + 1) < length (set_l l)
            then Inr (set_l l ! unat (node + 1) = set_l l ! 0)
            else Inl IndexOutOfRange)
      else Inr False)"

text \<open>
  \<open>Reset()\<close>: \<open>l.set[0]++\<close> (\<open>incr_marker\<close>); when the marker has wrapped to 0
  (\<open>overflowed\<close>), every slot is set to 0 by the loop over \<open>range l.set\<close>
  (\<open>zero_all\<close>) and the marker restarts at 1.
\<close>

definition incr_marker :: "uint8 list \<Rightarrow> uint8 list" where
  "incr_marker s = s[0 := s ! 0 + 1]"

definition overflowed :: "uint8 list \<Rightarrow> bool" where
  "overflowed s = (s ! 0 = 0)"

definition zero_all :: "uint8 list \<Rightarrow> uint8 list" where
  "zero_all s = map (\<lambda>_. 0) s"

definition Reset :: "ListSet \<Rightarrow> panic + ListSet" where
  "Reset l =
     (if set_l l = [] then Inl IndexOutOfRange
      else
        let s1 = incr_marker (set_l l) in
        if overflowed s1
        then Inr (l\<lparr>set_l := (zero_all s1)[0 := 1]\<rparr>)
        else Inr (l\<lparr>set_l := s1\<rparr>))"

text \<open>
  A client's calls on one instance, in order. A panic ends the sequence. \<open>Visited\<close>
  has no assignment in its body: the instance after the call is the instance before it.
\<close>

datatype call = CallVisit uint64 | CallVisited uint64 | CallReset

fun exec :: "ListSet \<Rightarrow> call \<Rightarrow> panic + ListSet" where
  "exec l (CallVisit node) = Visit l node"
| "exec l (CallVisited node) = (case Visited l node of Inl p \<Rightarrow> Inl p | Inr _ \<Rightarrow> Inr l)"
| "exec l CallReset = Reset l"

fun run :: "ListSet \<Rightarrow> call list \<Rightarrow> panic + ListSet" where
  "run l [] = Inr l"
| "run l (c # cs) = (case exec l c of Inl p \<Rightarrow> Inl p | Inr l' \<Rightarrow> run l' cs)"

text \<open>\<open>k\<close> calls of \<open>Reset\<close> in a row.\<close>

fun resets :: "nat \<Rightarrow> ListSet \<Rightarrow> panic + ListSet" where
  "resets 0 l = Inr l"
| "resets (Suc k) l = (case Reset l of Inl p \<Rightarrow> Inl p | Inr l' \<Rightarrow> resets k l')"

text \<open>
  What every instance built by \<open>NewList\<close> keeps: the slice holds the marker slot and
  has a length an \<open>int\<close> can hold; the marker is not 0; no slot exceeds the marker.
\<close>

definition slice_ok :: "'a list \<Rightarrow> bool" where
  "slice_ok s = (s \<noteq> [] \<and> int (length s) \<le> MaxInt)"

definition lset_inv :: "ListSet \<Rightarrow> bool" where
  "lset_inv l =
     (slice_ok (set_l l) \<and> set_l l ! 0 \<noteq> 0 \<and> list_all (\<lambda>v. v \<le> set_l l ! 0) (set_l l))"

section \<open>Lengths and indices as words; construction\<close>

lemma unat_of_nat_len:
  assumes "int (length (s :: 'a list)) \<le> MaxInt"
  shows "unat (of_nat (length s) :: uint64) = length s"
proof -
  have "length s < 2 ^ 64" using assms by (simp add: MaxInt_def)
  then show ?thesis by (simp add: unat_of_nat take_bit_nat_eq_self)
qed

lemma unat_Len:
  assumes "slice_ok (set_l l)"
  shows "unat (Len l) = length (set_l l) - 1"
proof -
  have n: "unat (of_nat (length (set_l l)) :: uint64) = length (set_l l)"
    using assms by (simp add: slice_ok_def unat_of_nat_len)
  have "Suc 0 \<le> length (set_l l)"
    using assms by (cases "set_l l") (simp_all add: slice_ok_def)
  then have "(1 :: uint64) \<le> of_nat (length (set_l l))"
    using n by (simp add: word_le_nat_alt)
  then show ?thesis using n by (simp add: Len_def unat_sub)
qed

lemma below_Len:
  assumes "slice_ok (set_l l)" and "node < Len l"
  shows "unat (node + 1) = Suc (unat node)" and "Suc (unat node) < length (set_l l)"
proof -
  have lt: "unat node < length (set_l l) - 1"
    using assms by (simp add: word_less_nat_alt unat_Len)
  then show b: "Suc (unat node) < length (set_l l)" by simp
  have "int (length (set_l l)) \<le> MaxInt" using assms by (simp add: slice_ok_def)
  then have "Suc (unat node) < 2 ^ 64" using b by (simp add: MaxInt_def)
  then show "unat (node + 1) = Suc (unat node)"
    by (simp add: unat_word_ariths)
qed

lemma Visited_eq:
  assumes "slice_ok (set_l l)"
  shows "Visited l node = Inr (node < Len l \<and> set_l l ! Suc (unat node) = set_l l ! 0)"
  using below_Len [OF assms] by (simp add: Visited_def)

lemma make_slice_Inr:
  "make_slice n = Inr s \<Longrightarrow> 0 \<le> n \<and> n \<le> MaxInt \<and> s = replicate (nat n) 0"
  by (auto simp: make_slice_def maxAlloc_def MaxInt_def split: if_splits)

lemma NewList_Inr:
  assumes "NewList sz = Inr l"
  shows "set_l l = 1 # replicate (length (set_l l) - 1) 0" and "slice_ok (set_l l)"
proof -
  obtain s where s: "make_slice (sint (sz + 1)) = Inr s" and l: "0 < length s" "l = \<lparr>set_l = s[0 := 1]\<rparr>"
    using assms by (auto simp: NewList_def split: sum.splits if_splits)
  from make_slice_Inr [OF s] have r: "s = replicate (nat (sint (sz + 1))) 0" and b: "sint (sz + 1) \<le> MaxInt"
    by simp_all
  obtain k where k: "nat (sint (sz + 1)) = Suc k" using l(1) r by (cases "nat (sint (sz + 1))") auto
  show "set_l l = 1 # replicate (length (set_l l) - 1) 0"
    using l r k by simp
  show "slice_ok (set_l l)" using l r b by (auto simp: slice_ok_def)
qed

lemma NewList_inv: "NewList sz = Inr l \<Longrightarrow> lset_inv l"
proof -
  assume a: "NewList sz = Inr l"
  have "list_all (\<lambda>v. v \<le> (1 :: uint8)) (1 # replicate n 0)" for n
    by (simp add: list_all_iff)
  then show ?thesis
    using NewList_Inr [OF a] unfolding lset_inv_def
    by (metis nth_Cons_0 one_neq_zero)
qed

section \<open>The invariant of an instance\<close>

lemma copy_slice_props:
  "length (copy_slice dst src) = length dst"
  "dst \<noteq> [] \<Longrightarrow> src \<noteq> [] \<Longrightarrow> copy_slice dst src ! 0 = src ! 0"
  by (auto simp: copy_slice_def nth_append)

lemma list_all_copy_zero:
  "list_all P src \<Longrightarrow> P 0 \<Longrightarrow> list_all P (copy_slice (replicate k 0) src)"
  by (auto simp: copy_slice_def list_all_iff dest: in_set_takeD)

lemma resize_Inr:
  assumes "resize l node = Inr l1"
  shows "set_l l1 = copy_slice (replicate (unat (node + 1024)) 0) (set_l l)"
    and "int (length (set_l l1)) \<le> MaxInt"
proof -
  obtain s where s: "make_slice (uint (node + 1024)) = Inr s"
      and l1: "l1 = l\<lparr>set_l := copy_slice s (set_l l)\<rparr>"
    using assms by (auto simp: resize_def split: sum.splits)
  from make_slice_Inr [OF s] have "s = replicate (unat (node + 1024)) 0" "uint (node + 1024) \<le> MaxInt"
    by simp_all
  then show "set_l l1 = copy_slice (replicate (unat (node + 1024)) 0) (set_l l)"
    and "int (length (set_l l1)) \<le> MaxInt"
    using l1 by (simp_all add: copy_slice_props)
qed

lemma resize_inv_weak:
  assumes "lset_inv l" and "resize l node = Inr l1" and "set_l l1 \<noteq> []"
  shows "lset_inv l1" and "set_l l1 ! 0 = set_l l ! 0"
proof -
  note r = resize_Inr [OF assms(2)]
  have ne: "set_l l \<noteq> []" using assms(1) by (simp add: lset_inv_def slice_ok_def)
  have k: "replicate (unat (node + 1024)) (0 :: uint8) \<noteq> []"
    using assms(3) r(1) by (auto simp: copy_slice_def)
  show m: "set_l l1 ! 0 = set_l l ! 0"
    using r(1) ne k by (simp add: copy_slice_props)
  have "list_all (\<lambda>v. v \<le> set_l l ! 0) (set_l l1)"
    unfolding r(1) using assms(1) by (intro list_all_copy_zero) (simp_all add: lset_inv_def)
  then show "lset_inv l1"
    using assms(1,3) r(2) m by (simp add: lset_inv_def slice_ok_def)
qed

lemma store_inv:
  assumes "lset_inv l1" and "i < length (set_l l1)"
  shows "lset_inv (l1\<lparr>set_l := (set_l l1)[i := set_l l1 ! 0]\<rparr>)"
proof -
  have m: "(set_l l1)[i := set_l l1 ! 0] ! 0 = set_l l1 ! 0"
    using assms(2) by (cases i) (simp_all add: nth_list_update)
  have "list_all (\<lambda>v. v \<le> set_l l1 ! 0) ((set_l l1)[i := set_l l1 ! 0])"
    using assms(1) by (auto simp: lset_inv_def list_all_iff dest: set_update_subset_insert [THEN subsetD])
  then show ?thesis
    using assms m by (simp add: lset_inv_def slice_ok_def)
qed

lemma Visit_inv:
  assumes "lset_inv l" and "Visit l node = Inr l'"
  shows "lset_inv l'"
proof -
  obtain l1 where l1: "(if Len l \<le> node then resize l node else Inr l) = Inr l1"
      and i: "unat (node + 1) < length (set_l l1)"
      and l': "l' = l1\<lparr>set_l := (set_l l1)[unat (node + 1) := set_l l1 ! 0]\<rparr>"
    using assms(2) by (auto simp: Visit_def split: sum.splits if_splits)
  have "set_l l1 \<noteq> []" using i by auto
  then have "lset_inv l1"
    using l1 assms(1) resize_inv_weak(1) by (auto split: if_splits)
  then show ?thesis unfolding l' using i by (rule store_inv)
qed

lemma word8_succ_gt:
  fixes m v :: uint8
  assumes "m + 1 \<noteq> 0" and "v \<le> m"
  shows "v < m + 1"
proof -
  have "unat (m + 1) = Suc (unat m)" using assms(1) by (simp add: unatSuc add.commute)
  then show ?thesis using assms(2) by (simp add: word_less_nat_alt word_le_nat_alt)
qed

lemma Reset_cases:
  assumes "set_l l \<noteq> []"
  shows "Reset l =
    Inr (if set_l l ! 0 + 1 = 0 then l\<lparr>set_l := 1 # replicate (length (set_l l) - 1) 0\<rparr>
         else l\<lparr>set_l := (set_l l ! 0 + 1) # tl (set_l l)\<rparr>)"
proof -
  obtain m t where s: "set_l l = m # t" using assms by (cases "set_l l") auto
  then show ?thesis
    by (simp add: Reset_def incr_marker_def overflowed_def zero_all_def Let_def map_replicate_const)
qed

lemma Reset_inv:
  assumes "lset_inv l" and "Reset l = Inr l'"
  shows "lset_inv l'"
proof -
  obtain m t where s: "set_l l = m # t" using assms(1) by (cases "set_l l") (auto simp: lset_inv_def slice_ok_def)
  have t: "list_all (\<lambda>v. v \<le> m) t" and len: "int (length (m # t)) \<le> MaxInt"
    using assms(1) s by (simp_all add: lset_inv_def slice_ok_def)
  show ?thesis
  proof (cases "m + 1 = 0")
    case True
    then have "set_l l' = 1 # replicate (length t) 0"
      using assms(2) s by (auto simp: Reset_cases)
    then show ?thesis using len by (simp add: lset_inv_def slice_ok_def list_all_iff)
  next
    case False
    then have l': "set_l l' = (m + 1) # t"
      using assms(2) s by (auto simp: Reset_cases)
    have "list_all (\<lambda>v. v \<le> m + 1) t"
      using t word8_succ_gt [OF False] by (auto simp: list_all_iff intro: less_imp_le)
    then show ?thesis using l' len False by (simp add: lset_inv_def slice_ok_def)
  qed
qed

lemma Reset_Visited:
  assumes "lset_inv l" and "Reset l = Inr l'"
  shows "Visited l' node = Inr False"
proof -
  obtain m t where s: "set_l l = m # t" using assms(1) by (cases "set_l l") (auto simp: lset_inv_def slice_ok_def)
  have t: "list_all (\<lambda>v. v \<le> m) t"
    using assms(1) s by (simp_all add: lset_inv_def)
  have ok: "slice_ok (set_l l')" using Reset_inv [OF assms] by (simp add: lset_inv_def)
  have "set_l l' ! Suc (unat node) \<noteq> set_l l' ! 0" if lt: "node < Len l'"
  proof (cases "m + 1 = 0")
    case True
    then have l': "set_l l' = 1 # replicate (length t) 0"
      using assms(2) s by (auto simp: Reset_cases)
    have "unat node < length t" using below_Len(2) [OF ok lt] l' by simp
    then show ?thesis using l' by simp
  next
    case False
    then have l': "set_l l' = (m + 1) # t"
      using assms(2) s by (auto simp: Reset_cases)
    have i: "unat node < length t" using below_Len(2) [OF ok lt] l' by simp
    then have "t ! unat node \<le> m" using t by (simp add: list_all_length)
    then have "t ! unat node < m + 1" by (rule word8_succ_gt [OF False])
    then show ?thesis using l' by simp
  qed
  then show ?thesis by (auto simp: Visited_eq [OF ok])
qed

lemma exec_inv: "lset_inv l \<Longrightarrow> exec l c = Inr l' \<Longrightarrow> lset_inv l'"
  by (cases c) (auto intro: Visit_inv Reset_inv split: sum.splits)

lemma run_inv: "lset_inv l \<Longrightarrow> run l cs = Inr l' \<Longrightarrow> lset_inv l'"
proof (induction cs arbitrary: l)
  case Nil
  then show ?case by simp
next
  case (Cons c cs)
  then show ?case by (auto split: sum.splits dest: exec_inv)
qed

lemma reachable_inv: "NewList sz = Inr l0 \<Longrightarrow> run l0 cs = Inr l \<Longrightarrow> lset_inv l"
  by (blast intro: run_inv NewList_inv)

lemma reachable_slice_ok:
  assumes "NewList sz = Inr l0" and "run l0 cs = Inr l"
  shows "set_l l \<noteq> []" and "int (length (set_l l)) \<le> MaxInt"
  using reachable_inv [OF assms] by (simp_all add: lset_inv_def slice_ok_def)

section \<open>Consecutive resets of a fresh instance\<close>

text \<open>
  The marker of a fresh instance is 1. After \<open>k\<close> resets it is \<open>k mod 255 + 1\<close>: it runs
  through 1, ..., 255 and the reset at 255 wraps it to 0 and restarts it at 1.
\<close>

lemma marker_of_nat:
  assumes "j < 255"
  shows "(word_of_nat j + 1 :: uint8) + 1 = 0 \<longleftrightarrow> j = 254"
    and "unat (word_of_nat j + 1 :: uint8) = Suc j"
proof -
  have u: "unat (word_of_nat (Suc j) :: uint8) = Suc j"
    using assms by (simp add: unat_of_nat take_bit_nat_eq_self del: of_nat_Suc)
  then show "unat (word_of_nat j + 1 :: uint8) = Suc j" by (simp add: add.commute)
  have "(word_of_nat (Suc (Suc j)) :: uint8) = 0 \<longleftrightarrow> j = 254"
  proof
    assume "(word_of_nat (Suc (Suc j)) :: uint8) = 0"
    then have t: "take_bit 8 (Suc (Suc j)) = 0"
      by (simp add: word_of_nat_eq_0_iff take_bit_eq_mod del: of_nat_Suc)
    have "\<not> Suc (Suc j) < 2 ^ 8"
    proof
      assume "Suc (Suc j) < 2 ^ 8"
      then have "take_bit 8 (Suc (Suc j)) = Suc (Suc j)" by (rule take_bit_nat_eq_self)
      then show False using t by simp
    qed
    then show "j = 254" using assms by simp
  next
    assume "j = 254"
    then show "(word_of_nat (Suc (Suc j)) :: uint8) = 0" by simp
  qed
  then show "(word_of_nat j + 1 :: uint8) + 1 = 0 \<longleftrightarrow> j = 254" by (simp add: add.commute)
qed

lemma Reset_step:
  assumes "j < 255"
  shows "Reset \<lparr>set_l = (word_of_nat j + 1) # replicate n 0\<rparr> =
    Inr \<lparr>set_l = (word_of_nat (Suc j mod 255) + 1) # replicate n 0\<rparr>"
proof (cases "j = 254")
  case True
  then show ?thesis by (simp add: Reset_cases)
next
  case False
  then have "Suc j mod 255 = Suc j" using assms by simp
  then show ?thesis using False marker_of_nat(1) [OF assms] by (simp add: Reset_cases add.commute)
qed

lemma resets_from:
  "j < 255 \<Longrightarrow>
   resets k \<lparr>set_l = (word_of_nat j + 1) # replicate n 0\<rparr> =
     Inr \<lparr>set_l = (word_of_nat ((j + k) mod 255) + 1) # replicate n 0\<rparr>"
proof (induction k arbitrary: j)
  case 0
  then show ?case by simp
next
  case (Suc k)
  have lt: "Suc j mod 255 < 255" by simp
  have "(Suc j mod 255 + k) mod 255 = (j + Suc k) mod 255"
    by (simp add: mod_add_left_eq)
  then show ?case
    using Suc.IH [OF lt] Reset_step [OF Suc.prems] by simp
qed

lemma resets_fresh:
  "resets k \<lparr>set_l = 1 # replicate n 0\<rparr> =
     Inr \<lparr>set_l = (word_of_nat (k mod 255) + 1) # replicate n 0\<rparr>"
  using resets_from [of 0 k n] by simp

text \<open>A row of resets is a run of \<open>Reset\<close> calls.\<close>

lemma run_resets: "run l (replicate k CallReset) = resets k l"
  by (induction k arbitrary: l) (simp_all split: sum.splits)

section \<open>Visit below the length, and above it\<close>

text \<open>
  \<open>Visit node\<close> without resize (\<open>node < Len\<close>), with a resize whose length
  \<open>node + 1024\<close> is within the allocation limit, and at the largest node id, where
  \<open>node + 1024\<close> wraps to 1023 and \<open>node + 1\<close> wraps to 0.
\<close>

lemma NewList_eq:
  assumes "0 \<le> sint sz" and "sint sz < maxAlloc"
  shows "NewList sz = Inr \<lparr>set_l = 1 # replicate (nat (sint sz)) 0\<rparr>"
proof -
  have s1: "sint (sz + 1) = sint sz + 1"
    using assms by (simp add: maxAlloc_def sint_word_add signed_take_bit_int_eq_self)
  have "nat (sint sz + 1) = Suc (nat (sint sz))"
    using assms(1) by (simp add: nat_add_distrib)
  then have "make_slice (sint sz + 1) = Inr (replicate (Suc (nat (sint sz))) 0)"
    using assms by (simp add: make_slice_def)
  then have "make_slice (sint (sz + 1)) = Inr (replicate (Suc (nat (sint sz))) 0)"
    by (simp only: s1)
  then show ?thesis by (simp add: NewList_def)
qed

lemma Visit_below:
  assumes "slice_ok (set_l l)" and "node < Len l"
  shows "Visit l node = Inr (l\<lparr>set_l := (set_l l)[Suc (unat node) := set_l l ! 0]\<rparr>)"
  using below_Len [OF assms] assms(2) by (simp add: Visit_def not_le [symmetric])

lemma le_max64: "(x :: uint64) \<le> 18446744073709551615"
proof -
  have "unat x < 2 ^ 64" using unsigned_less [of x, where ?'a = nat] by simp
  then show ?thesis by (simp add: word_le_nat_alt)
qed

lemma Visit_max:
  "Visit l 18446744073709551615 = Inr \<lparr>set_l = copy_slice (replicate 1023 0) (set_l l)\<rparr>"
proof -
  have le: "Len l \<le> 18446744073709551615"
    by (rule le_max64)
  have r: "resize l 18446744073709551615 = Inr (l\<lparr>set_l := copy_slice (replicate 1023 0) (set_l l)\<rparr>)"
    by (simp add: resize_def make_slice_def maxAlloc_def)
  show ?thesis
    using le by (simp add: Visit_def r copy_slice_props)
qed

lemma Visited_above: "Len l \<le> node \<Longrightarrow> Visited l node = Inr False"
  by (auto simp: Visited_def)

lemma Visit_grow:
  assumes "slice_ok (set_l l)" and "Len l \<le> node" and "uint node + 1024 \<le> maxAlloc"
  shows "Visit l node =
    Inr (l\<lparr>set_l := (set_l l @ replicate (unat node + 1024 - length (set_l l)) 0)
                        [Suc (unat node) := set_l l ! 0]\<rparr>)"
    and "length (set_l l) \<le> Suc (unat node)"
proof -
  have un: "unat node + 1024 \<le> 2 ^ 48"
    using assms(3) by (simp add: maxAlloc_def unat_eq_nat_uint del: nat_uint_eq)
  have "unat node + unat (1024 :: uint64) < 2 ^ LENGTH(64)"
    using un by simp
  then have u1024: "unat (node + 1024) = unat node + 1024"
    by (simp add: unat_add_lem [THEN iffD1])
  have "unat node + unat (1 :: uint64) < 2 ^ LENGTH(64)"
    using un by simp
  then have u1: "unat (node + 1) = Suc (unat node)"
    by (simp add: unat_add_lem [THEN iffD1])
  have "length (set_l l) - 1 \<le> unat node"
    using assms(1,2) by (simp add: word_le_nat_alt unat_Len)
  then show len: "length (set_l l) \<le> Suc (unat node)" by simp
  have "uint (node + 1024) = int (unat node + 1024)"
    unfolding u1024 [symmetric] by (rule uint_nat)
  moreover have "int (unat node + 1024) \<le> maxAlloc" "nat (int (unat node + 1024)) = unat node + 1024"
    using un by (simp_all add: maxAlloc_def del: of_nat_add)
  ultimately have mk: "make_slice (uint (node + 1024)) = Inr (replicate (unat node + 1024) 0)"
    by (simp add: make_slice_def del: of_nat_add)
  have cp: "copy_slice (replicate (unat node + 1024) 0) (set_l l) =
      set_l l @ replicate (unat node + 1024 - length (set_l l)) 0"
    using len by (simp add: copy_slice_def)
  have ne: "set_l l \<noteq> []" using assms(1) by (simp add: slice_ok_def)
  show "Visit l node =
    Inr (l\<lparr>set_l := (set_l l @ replicate (unat node + 1024 - length (set_l l)) 0)
                        [Suc (unat node) := set_l l ! 0]\<rparr>)"
    using assms(2) len ne by (simp add: Visit_def resize_def mk cp u1 nth_append)
qed

lemma Visit_in_range:
  assumes "lset_inv l" and "node < Len l \<or> uint node + 1024 \<le> maxAlloc"
  shows "\<exists>l'. Visit l node = Inr l' \<and> Visited l' node = Inr True \<and> Len l \<le> Len l' \<and>
    Suc (unat node) \<le> unat (Len l') \<and>
    (\<forall>m. m \<noteq> node \<longrightarrow> Visited l' m = Visited l m)"
proof (cases "node < Len l")
  case True
  have ok: "slice_ok (set_l l)" using assms(1) by (simp add: lset_inv_def)
  define l' where "l' = l\<lparr>set_l := (set_l l)[Suc (unat node) := set_l l ! 0]\<rparr>"
  have v: "Visit l node = Inr l'" unfolding l'_def using ok True by (rule Visit_below)
  have ok': "slice_ok (set_l l')" using ok by (simp add: l'_def slice_ok_def)
  have len: "Len l' = Len l" by (simp add: l'_def Len_def)
  note b = below_Len [OF ok True]
  have "Visited l' node = Inr True"
    using True b(2) by (simp add: Visited_eq [OF ok'] len) (simp add: l'_def)
  moreover have "Visited l' m = Visited l m" if "m \<noteq> node" for m
  proof -
    have "unat m \<noteq> unat node" using that by (simp add: word_unat_eq_iff)
    then show ?thesis
      by (simp add: Visited_eq [OF ok'] Visited_eq [OF ok] len) (simp add: l'_def)
  qed
  moreover have "Suc (unat node) \<le> unat (Len l')"
    using True by (simp add: len word_less_nat_alt)
  ultimately show ?thesis using v len by auto
next
  case False
  then have ge: "Len l \<le> node" and r: "uint node + 1024 \<le> maxAlloc"
    using assms(2) by simp_all
  have ok: "slice_ok (set_l l)" and m0: "set_l l ! 0 \<noteq> 0"
    using assms(1) by (simp_all add: lset_inv_def)
  have ne: "set_l l \<noteq> []" using ok by (simp add: slice_ok_def)
  define d where "d = unat node + 1024 - length (set_l l)"
  define l' where "l' = l\<lparr>set_l := (set_l l @ replicate d 0)[Suc (unat node) := set_l l ! 0]\<rparr>"
  note g = Visit_grow [OF ok ge r]
  have v: "Visit l node = Inr l'" unfolding l'_def d_def by (rule g(1))
  have lenl: "length (set_l l') = unat node + 1024"
    using g(2) by (simp add: l'_def d_def)
  have "int (length (set_l l')) \<le> MaxInt"
    using r lenl by (simp add: maxAlloc_def MaxInt_def)
  moreover have "set_l l' \<noteq> []"
    using lenl by auto
  ultimately have ok': "slice_ok (set_l l')"
    by (simp add: slice_ok_def)
  have ul': "unat (Len l') = unat node + 1023"
    by (simp add: unat_Len [OF ok'] lenl)
  have ul: "unat (Len l) = length (set_l l) - 1" using ok by (rule unat_Len)
  have lt: "node < Len l'" by (simp add: word_less_nat_alt ul')
  have mk: "set_l l' ! 0 = set_l l ! 0"
    using ne by (simp add: l'_def nth_append)
  have "set_l l' ! Suc (unat node) = set_l l ! 0"
    using g(2) by (simp add: l'_def d_def)
  then have "Visited l' node = Inr True"
    using lt mk by (simp add: Visited_eq [OF ok'])
  moreover have "Len l \<le> Len l'"
    using g(2) by (simp add: word_le_nat_alt ul ul')
  moreover have "Visited l' m = Visited l m" if "m \<noteq> node" for m
  proof -
    have neq: "Suc (unat m) \<noteq> Suc (unat node)" using that by (simp add: word_unat_eq_iff)
    show ?thesis
    proof (cases "m < Len l")
      case True
      then have i: "Suc (unat m) < length (set_l l)" using below_Len(2) [OF ok] by simp
      then have "set_l l' ! Suc (unat m) = set_l l ! Suc (unat m)"
        using neq by (simp add: l'_def nth_append)
      moreover have "m < Len l'"
        using True \<open>Len l \<le> Len l'\<close> by simp
      ultimately show ?thesis
        using True mk by (simp add: Visited_eq [OF ok'] Visited_eq [OF ok])
    next
      case False
      then have "length (set_l l) - 1 \<le> unat m"
        by (simp add: word_less_nat_alt ul)
      then have i: "\<not> Suc (unat m) < length (set_l l)" by simp
      have "set_l l' ! Suc (unat m) = 0" if "m < Len l'"
      proof -
        have "Suc (unat m) < length (set_l l')" using that below_Len(2) [OF ok'] by simp
        then have "Suc (unat m) - length (set_l l) < d"
          using i lenl by (simp add: l'_def)
        then show ?thesis using i neq by (simp add: l'_def nth_append)
      qed
      then show ?thesis
        using False mk m0 by (auto simp: Visited_eq [OF ok'] Visited_eq [OF ok])
    qed
  qed
  moreover have "Suc (unat node) \<le> unat (Len l')" by (simp add: ul')
  ultimately show ?thesis using v by auto
qed

section \<open>C1: nothing is visited after Reset\<close>

text \<open>
  C1. In every state reached from \<open>NewList\<close> by any finite sequence of \<open>Visit\<close>,
  \<open>Visited\<close> and \<open>Reset\<close> calls that returned, \<open>Reset\<close> returns, and in the state
  it leaves \<open>Visited n\<close> is false for every node id \<open>n\<close>. The sequence may hold any
  number of resets, so the marker may have wrapped any number of times (by lemmas
  \<open>run_resets\<close> and \<open>resets_fresh\<close>, 255 resets in a row wrap it once).
\<close>

theorem Reset_unvisits_all:
  assumes "NewList sz = Inr l0" and "run l0 cs = Inr l"
  shows "\<exists>l'. Reset l = Inr l' \<and> (\<forall>n. Visited l' n = Inr False)"
proof -
  have i: "lset_inv l" using assms by (rule reachable_inv)
  then have "set_l l \<noteq> []" by (simp add: lset_inv_def slice_ok_def)
  then obtain l' where r: "Reset l = Inr l'" by (simp add: Reset_cases)
  then show ?thesis using Reset_Visited [OF i r] by simp
qed

theorem Reset_unvisits_all_witness:
  "NewList 4 = Inr \<lparr>set_l = [1, 0, 0, 0, 0]\<rparr> \<and>
   run \<lparr>set_l = [1, 0, 0, 0, 0]\<rparr> [CallVisit 2, CallReset, CallVisit 3] =
     Inr \<lparr>set_l = [2, 0, 0, 1, 2]\<rparr> \<and>
   (\<exists>l'. Reset \<lparr>set_l = [2, 0, 0, 1, 2]\<rparr> = Inr l' \<and> (\<forall>n. Visited l' n = Inr False))"
proof -
  have a: "NewList 4 = Inr \<lparr>set_l = [1, 0, 0, 0, 0]\<rparr>"
    by code_simp
  have b: "run \<lparr>set_l = [1, 0, 0, 0, 0]\<rparr> [CallVisit 2, CallReset, CallVisit 3] =
      Inr \<lparr>set_l = [2, 0, 0, 1, 2]\<rparr>"
    by code_simp
  show ?thesis using a b Reset_unvisits_all [OF a b] by simp
qed

section \<open>C2: Visit, then Visited\<close>

text \<open>
  C2 states that \<open>Visit n\<close> followed by \<open>Visited n\<close> returns true for every
  \<open>uint64\<close> node id \<open>n\<close>. Lemma \<open>Visit_in_range\<close> has it for every \<open>n\<close> below
  the length and for every \<open>n\<close> whose resize length \<open>n + 1024\<close> is within the
  allocation limit. At
  \<open>n = 2^64 - 1\<close> the code does otherwise. On the instance of \<open>NewList 4\<close>, the sum
  \<open>n + 1024\<close> wraps to 1023, the slice is replaced by one of 1023 slots, the store goes
  to slot \<open>n + 1 = 0\<close>, the marker itself, \<open>Visit\<close> returns, and \<open>Visited n\<close> is
  false.
\<close>

theorem Visit_max_not_visited:
  "NewList 4 = Inr \<lparr>set_l = [1, 0, 0, 0, 0]\<rparr> \<and>
   Visit \<lparr>set_l = [1, 0, 0, 0, 0]\<rparr> 18446744073709551615 =
     Inr \<lparr>set_l = [1, 0, 0, 0, 0] @ replicate 1018 0\<rparr> \<and>
   Visited \<lparr>set_l = [1, 0, 0, 0, 0] @ replicate 1018 0\<rparr> 18446744073709551615 = Inr False"
proof -
  have a: "NewList 4 = Inr \<lparr>set_l = [1, 0, 0, 0, 0]\<rparr>" by code_simp
  have b: "Visit \<lparr>set_l = [1, 0, 0, 0, 0]\<rparr> 18446744073709551615 =
     Inr \<lparr>set_l = [1, 0, 0, 0, 0] @ replicate 1018 0\<rparr>"
    by (simp add: Visit_max copy_slice_def)
  have c: "Visited \<lparr>set_l = [1, 0, 0, 0, 0] @ replicate 1018 0\<rparr> 18446744073709551615 = Inr False"
    by (rule Visited_above) (rule le_max64)
  show ?thesis using a b c by blast
qed

section \<open>C3: the length under Visit\<close>

text \<open>
  C3 states that \<open>Len\<close> after \<open>Visit n\<close> is at least \<open>Len\<close> before, for every node
  id \<open>n\<close>. Lemma \<open>Visit_in_range\<close> has it in the range given there. At
  \<open>n = 2^64 - 1\<close> the code does otherwise: on the instance of \<open>NewList 2000\<close>, whose
  \<open>Len\<close> is 2000, \<open>Visit n\<close> returns an instance whose \<open>Len\<close> is 1022.
\<close>

theorem Visit_max_shrinks:
  "NewList 2000 = Inr \<lparr>set_l = 1 # replicate 2000 0\<rparr> \<and>
   Len \<lparr>set_l = 1 # replicate 2000 0\<rparr> = 2000 \<and>
   Visit \<lparr>set_l = 1 # replicate 2000 0\<rparr> 18446744073709551615 =
     Inr \<lparr>set_l = 1 # replicate 1022 0\<rparr> \<and>
   Len \<lparr>set_l = 1 # replicate 1022 0\<rparr> = 1022"
proof -
  have a: "NewList 2000 = Inr \<lparr>set_l = 1 # replicate 2000 0\<rparr>"
    using NewList_eq [of 2000] by (simp add: maxAlloc_def)
  have b: "Visit \<lparr>set_l = 1 # replicate 2000 0\<rparr> 18446744073709551615 =
     Inr \<lparr>set_l = 1 # replicate 1022 0\<rparr>"
    by (simp add: Visit_max copy_slice_def)
  show ?thesis using a b by (simp add: Len_def)
qed

section \<open>C4: Visit and the other nodes\<close>

text \<open>
  C4 states that \<open>Visit n\<close> does not change \<open>Visited m\<close> for \<open>m \<noteq> n\<close>. Lemma
  \<open>Visit_in_range\<close> has it in the range given there. At \<open>n = 2^64 - 1\<close> the code
  does otherwise: on the instance of \<open>NewList 2000\<close>, node 1500 is visited; after
  \<open>Visit n\<close>, which cuts the slice to 1023 slots, \<open>Visited 1500\<close> is false.
\<close>

theorem Visit_max_unvisits_other:
  "NewList 2000 = Inr \<lparr>set_l = 1 # replicate 2000 0\<rparr> \<and>
   Visit \<lparr>set_l = 1 # replicate 2000 0\<rparr> 1500 =
     Inr \<lparr>set_l = (1 # replicate 2000 0)[1501 := 1]\<rparr> \<and>
   Visited \<lparr>set_l = (1 # replicate 2000 0)[1501 := 1]\<rparr> 1500 = Inr True \<and>
   Visit \<lparr>set_l = (1 # replicate 2000 0)[1501 := 1]\<rparr> 18446744073709551615 =
     Inr \<lparr>set_l = 1 # replicate 1022 0\<rparr> \<and>
   Visited \<lparr>set_l = 1 # replicate 1022 0\<rparr> 1500 = Inr False"
proof -
  have ok: "slice_ok (set_l \<lparr>set_l = 1 # replicate 2000 0\<rparr>)"
    by (simp add: slice_ok_def MaxInt_def)
  have lt: "1500 < Len \<lparr>set_l = 1 # replicate 2000 0\<rparr>"
    by (simp add: Len_def)
  have a: "Visit \<lparr>set_l = 1 # replicate 2000 0\<rparr> 1500 =
     Inr \<lparr>set_l = (1 # replicate 2000 0)[1501 := 1]\<rparr>"
    using Visit_below [OF ok lt] by simp
  have ok': "slice_ok (set_l \<lparr>set_l = (1 # replicate 2000 0)[1501 := 1]\<rparr>)"
    by (simp add: slice_ok_def MaxInt_def)
  have b: "Visited \<lparr>set_l = (1 # replicate 2000 0)[1501 := 1]\<rparr> 1500 = Inr True"
    using Visited_eq [OF ok', of 1500] by (simp add: Len_def)
  have c: "Visit \<lparr>set_l = (1 # replicate 2000 0)[1501 := 1]\<rparr> 18446744073709551615 =
     Inr \<lparr>set_l = 1 # replicate 1022 0\<rparr>"
    by (simp add: Visit_max copy_slice_def)
  have d: "Visited \<lparr>set_l = 1 # replicate 1022 0\<rparr> 1500 = Inr False"
    by (rule Visited_above) (simp add: Len_def)
  have n: "NewList 2000 = Inr \<lparr>set_l = 1 # replicate 2000 0\<rparr>"
    using NewList_eq [of 2000] by (simp add: maxAlloc_def)
  show ?thesis using n a b c d by blast
qed

section \<open>C5: NewList\<close>

text \<open>
  C5, as the code has it. For every \<open>size\<close> from 0 up to, but not including, the
  allocation limit \<open>maxAlloc = 2^48\<close> (so that the \<open>size + 1\<close> bytes of the slice are
  within the limit), \<open>NewList size\<close> returns an instance whose \<open>Len\<close> is \<open>size\<close> and
  in which \<open>Visited n\<close> is false for every node id \<open>n\<close>, below or above the length.
  That the machine has the \<open>size + 1\<close> bytes is taken for granted, as everywhere in this
  theory.
\<close>

theorem NewList_fresh:
  assumes "0 \<le> sint sz" and "sint sz < maxAlloc"
  shows "\<exists>l. NewList sz = Inr l \<and> Len l = sz \<and> (\<forall>n. Visited l n = Inr False)"
proof -
  define k where "k = nat (sint sz)"
  have nl: "NewList sz = Inr \<lparr>set_l = 1 # replicate k 0\<rparr>"
    unfolding k_def using assms by (rule NewList_eq)
  have "word_of_nat k = sz"
    unfolding k_def using word_of_int_nat [OF assms(1), where 'a = 64] by simp
  then have len: "Len \<lparr>set_l = 1 # replicate k 0\<rparr> = sz"
    by (simp add: Len_def)
  have ok: "slice_ok (set_l \<lparr>set_l = 1 # replicate k 0\<rparr>)"
    using NewList_Inr(2) [OF nl] .
  have "Visited \<lparr>set_l = 1 # replicate k 0\<rparr> n = Inr False" for n
    using below_Len(2) [OF ok, of n] by (auto simp: Visited_eq [OF ok])
  then show ?thesis using nl len by simp
qed

theorem NewList_fresh_witness:
  "(0 :: int) \<le> sint (4 :: go_int) \<and> sint (4 :: go_int) < maxAlloc \<and>
   (\<exists>l. NewList 4 = Inr l \<and> Len l = 4 \<and> (\<forall>n. Visited l n = Inr False))"
proof -
  have a: "(0 :: int) \<le> sint (4 :: go_int)" by simp
  have b: "sint (4 :: go_int) < maxAlloc" by (simp add: maxAlloc_def)
  show ?thesis using a b NewList_fresh [OF a b] by simp
qed

text \<open>
  C5, as the spec states it (every non-negative \<open>size\<close>), fails at the largest
  \<open>int\<close>: \<open>size+1\<close> wraps to the smallest \<open>int\<close>, and \<open>make\<close> panics on the
  negative length. It fails already at \<open>size = 2^48\<close>, the smallest size whose
  \<open>size + 1\<close> bytes exceed the allocation limit: \<open>make\<close> panics there too.
\<close>

theorem NewList_MaxInt_panics:
  "NewList 9223372036854775807 = Inl MakesliceLenOutOfRange \<and>
   NewList 281474976710656 = Inl MakesliceLenOutOfRange"
  by (simp add: NewList_def make_slice_def maxAlloc_def)

section \<open>C6: Visit above the length\<close>

text \<open>
  C6 states that \<open>Visit n\<close> on an instance with \<open>Len \<le> n\<close> leaves \<open>Len\<close> at least
  \<open>n + 1\<close> and \<open>Visited n\<close> true. Lemma \<open>Visit_in_range\<close> has it, with the other
  nodes unchanged, whenever \<open>n + 1024\<close> is within the allocation limit. At
  \<open>n = 2^64 - 1\<close> the code
  does otherwise: on the instance of \<open>NewList 4\<close>, whose \<open>Len\<close> 4 is below \<open>n\<close>,
  \<open>Visit n\<close> returns an instance whose \<open>Len\<close> is 1022, far below \<open>n + 1 = 2^64\<close>,
  and \<open>Visited n\<close> is false.
\<close>

theorem Visit_max_no_growth:
  "Len \<lparr>set_l = [1, 0, 0, 0, 0]\<rparr> = 4 \<and>
   (4 :: uint64) \<le> 18446744073709551615 \<and>
   Visit \<lparr>set_l = [1, 0, 0, 0, 0]\<rparr> 18446744073709551615 =
     Inr \<lparr>set_l = [1, 0, 0, 0, 0] @ replicate 1018 0\<rparr> \<and>
   unat (Len \<lparr>set_l = [1, 0, 0, 0, 0] @ replicate 1018 0\<rparr>) = 1022 \<and>
   unat (18446744073709551615 :: uint64) + 1 = 18446744073709551616 \<and>
   Visited \<lparr>set_l = [1, 0, 0, 0, 0] @ replicate 1018 0\<rparr> 18446744073709551615 = Inr False"
proof -
  have b: "Visit \<lparr>set_l = [1, 0, 0, 0, 0]\<rparr> 18446744073709551615 =
     Inr \<lparr>set_l = [1, 0, 0, 0, 0] @ replicate 1018 0\<rparr>"
    by (simp add: Visit_max copy_slice_def)
  have c: "Visited \<lparr>set_l = [1, 0, 0, 0, 0] @ replicate 1018 0\<rparr> 18446744073709551615 = Inr False"
    by (rule Visited_above) (rule le_max64)
  show ?thesis using b c by (simp add: Len_def)
qed

section \<open>C7: Visited\<close>

text \<open>
  C7. On every instance whose slice holds the marker slot (every instance but a released
  or never constructed one; the length of a Go slice always fits an \<open>int\<close>),
  \<open>Visited n\<close> returns without a panic: false when \<open>n\<close> is at or above \<open>Len\<close>, and
  otherwise whether the stamp of \<open>n\<close> (slot \<open>n + 1\<close>) equals the marker (slot 0). The
  call leaves the instance as it was: it neither grows nor allocates. By lemma
  \<open>reachable_slice_ok\<close> these are in particular all instances reached from \<open>NewList\<close>
  by calls that returned.
\<close>

theorem Visited_reads:
  assumes "set_l l \<noteq> []" and "int (length (set_l l)) \<le> MaxInt"
  shows "Visited l n = Inr (n < Len l \<and> set_l l ! (unat n + 1) = set_l l ! 0) \<and>
    (Len l \<le> n \<longrightarrow> Visited l n = Inr False) \<and>
    exec l (CallVisited n) = Inr l"
proof -
  have "slice_ok (set_l l)" using assms by (simp add: slice_ok_def)
  then have v: "Visited l n = Inr (n < Len l \<and> set_l l ! Suc (unat n) = set_l l ! 0)"
    by (rule Visited_eq)
  then show ?thesis by (auto simp: not_less [symmetric])
qed

theorem Visited_reads_witness:
  "set_l \<lparr>set_l = [1, 0, 1, 0]\<rparr> \<noteq> [] \<and>
   int (length (set_l \<lparr>set_l = [1, 0, 1, 0]\<rparr>)) \<le> MaxInt \<and>
   Visited \<lparr>set_l = [1, 0, 1, 0]\<rparr> 1 = Inr True \<and>
   Len \<lparr>set_l = [1, 0, 1, 0]\<rparr> \<le> 3 \<and>
   Visited \<lparr>set_l = [1, 0, 1, 0]\<rparr> 3 = Inr False \<and>
   exec \<lparr>set_l = [1, 0, 1, 0]\<rparr> (CallVisited 1) = Inr \<lparr>set_l = [1, 0, 1, 0]\<rparr>"
proof -
  have a: "set_l \<lparr>set_l = [1, 0, 1, 0]\<rparr> \<noteq> []"
    by simp
  have b: "int (length (set_l \<lparr>set_l = [1, 0, 1, 0]\<rparr>)) \<le> MaxInt"
    by (simp add: MaxInt_def)
  have c: "Len \<lparr>set_l = [1, 0, 1, 0]\<rparr> \<le> 3"
    by code_simp
  have d: "Visited \<lparr>set_l = [1, 0, 1, 0]\<rparr> 1 = Inr True"
    by code_simp
  have e: "Visited \<lparr>set_l = [1, 0, 1, 0]\<rparr> 3 = Inr False"
    using c Visited_reads [OF a b, of 3] by blast
  have f: "exec \<lparr>set_l = [1, 0, 1, 0]\<rparr> (CallVisited 1) = Inr \<lparr>set_l = [1, 0, 1, 0]\<rparr>"
    using Visited_reads [OF a b, of 1] by blast
  show ?thesis
    using a b c d e f by blast
qed

section \<open>C8: how often Reset zeroes the slice\<close>

text \<open>
  C8, as the code has it. On a fresh instance, the reset number \<open>k + 1\<close> takes the
  zeroing branch exactly when \<open>k + 1\<close> is a multiple of 255, that is once every
  \<open>2^8 - 1\<close> consecutive resets; then it leaves the marker 1 and every stamp 0. Every
  other reset stores the incremented marker in slot 0 and leaves the length and the
  slots behind slot 0 as they were.
\<close>

theorem full_clear_period:
  assumes "NewList sz = Inr l0"
  shows "\<exists>l. resets k l0 = Inr l \<and>
    (overflowed (incr_marker (set_l l)) \<longleftrightarrow> Suc k mod 255 = 0) \<and>
    Reset l = Inr (if Suc k mod 255 = 0 then l\<lparr>set_l := (zero_all (incr_marker (set_l l)))[0 := 1]\<rparr>
                   else l\<lparr>set_l := incr_marker (set_l l)\<rparr>) \<and>
    length (incr_marker (set_l l)) = length (set_l l) \<and>
    tl (incr_marker (set_l l)) = tl (set_l l)"
proof -
  define n where "n = length (set_l l0) - 1"
  have l0: "l0 = \<lparr>set_l = 1 # replicate n 0\<rparr>"
    using NewList_Inr(1) [OF assms] by (simp add: n_def)
  define j where "j = k mod 255"
  have j: "j < 255" by (simp add: j_def)
  define l where "l = \<lparr>set_l = (word_of_nat j + 1 :: uint8) # replicate n 0\<rparr>"
  have r: "resets k l0 = Inr l" unfolding l0 l_def j_def by (rule resets_fresh)
  have m: "Suc k mod 255 = 0 \<longleftrightarrow> j = 254"
    unfolding j_def by (simp add: mod_Suc)
  have o: "overflowed (incr_marker (set_l l)) \<longleftrightarrow> j = 254"
    using marker_of_nat(1) [OF j] by (simp add: l_def overflowed_def incr_marker_def)
  have "Reset l = Inr (if overflowed (incr_marker (set_l l))
      then l\<lparr>set_l := (zero_all (incr_marker (set_l l)))[0 := 1]\<rparr>
      else l\<lparr>set_l := incr_marker (set_l l)\<rparr>)"
    by (simp add: l_def Reset_def Let_def)
  moreover have "length (incr_marker (set_l l)) = length (set_l l)"
    and "tl (incr_marker (set_l l)) = tl (set_l l)"
    by (simp_all add: l_def incr_marker_def)
  ultimately show ?thesis using r m o by simp
qed

theorem full_clear_period_witness:
  "NewList 1 = Inr \<lparr>set_l = [1, 0]\<rparr> \<and>
   (\<exists>l. resets 3 \<lparr>set_l = [1, 0]\<rparr> = Inr l \<and> \<not> overflowed (incr_marker (set_l l)) \<and>
      Reset l = Inr (l\<lparr>set_l := incr_marker (set_l l)\<rparr>))"
proof -
  have a: "NewList 1 = Inr \<lparr>set_l = [1, 0]\<rparr>" by code_simp
  show ?thesis using a full_clear_period [OF a, of 3] by auto
qed

text \<open>
  C8, as the spec states it (once every \<open>2^8 = 256\<close> consecutive resets), fails: on the
  instance of \<open>NewList 1\<close> the resets number 255 and number 510 both find the marker at
  255 and zero the slice, 255 resets apart and both among the 256 consecutive resets
  255, ..., 510; the reset number 256 finds the marker at 1 and does not.
\<close>

theorem full_clear_255_apart:
  "NewList 1 = Inr \<lparr>set_l = [1, 0]\<rparr> \<and>
   resets 254 \<lparr>set_l = [1, 0]\<rparr> = Inr \<lparr>set_l = [255, 0]\<rparr> \<and>
   overflowed (incr_marker [255, 0]) \<and>
   resets 255 \<lparr>set_l = [1, 0]\<rparr> = Inr \<lparr>set_l = [1, 0]\<rparr> \<and>
   \<not> overflowed (incr_marker [1, 0]) \<and>
   resets 509 \<lparr>set_l = [1, 0]\<rparr> = Inr \<lparr>set_l = [255, 0]\<rparr>"
proof -
  have a: "NewList 1 = Inr \<lparr>set_l = [1, 0]\<rparr>" by code_simp
  show ?thesis
    using a resets_fresh [of 254 1] resets_fresh [of 255 1] resets_fresh [of 509 1]
    by (simp add: overflowed_def incr_marker_def)
qed

section \<open>C9: the marker is never 0\<close>

text \<open>
  C9. In every state reached from \<open>NewList\<close> by any sequence of \<open>Visit\<close>, \<open>Visited\<close>
  and \<open>Reset\<close> calls that returned, the slice holds the marker slot and the marker is at
  least 1. When the increment inside \<open>Reset\<close> wraps the marker to 0, \<open>Reset\<close> returns
  with the marker set to 1.
\<close>

theorem marker_positive:
  assumes "NewList sz = Inr l0" and "run l0 cs = Inr l"
  shows "set_l l \<noteq> [] \<and> 1 \<le> set_l l ! 0 \<and>
    (overflowed (incr_marker (set_l l)) \<longrightarrow> (\<exists>l'. Reset l = Inr l' \<and> set_l l' ! 0 = 1))"
proof -
  have i: "lset_inv l" using assms by (rule reachable_inv)
  then have ne: "set_l l \<noteq> []" and m: "set_l l ! 0 \<noteq> 0"
    by (simp_all add: lset_inv_def slice_ok_def)
  have "1 \<le> set_l l ! 0" using m by (simp add: word_le_nat_alt unat_gt_0 Suc_leI)
  moreover have "\<exists>l'. Reset l = Inr l' \<and> set_l l' ! 0 = 1"
    if "overflowed (incr_marker (set_l l))"
    using that ne
    by (cases "set_l l") (simp_all add: Reset_def incr_marker_def overflowed_def zero_all_def)
  ultimately show ?thesis using ne by blast
qed

theorem marker_positive_witness:
  "NewList 2 = Inr \<lparr>set_l = [1, 0, 0]\<rparr> \<and>
   run \<lparr>set_l = [1, 0, 0]\<rparr> [CallReset, CallVisit 1, CallVisited 1, CallReset] =
     Inr \<lparr>set_l = [3, 0, 2]\<rparr> \<and>
   (1 :: uint8) \<le> [3, 0, 2] ! 0"
proof -
  have a: "NewList 2 = Inr \<lparr>set_l = [1, 0, 0]\<rparr>"
    by code_simp
  have b: "run \<lparr>set_l = [1, 0, 0]\<rparr> [CallReset, CallVisit 1, CallVisited 1, CallReset] =
      Inr \<lparr>set_l = [3, 0, 2]\<rparr>"
    by code_simp
  show ?thesis using a b marker_positive [OF a b] by simp
qed

section \<open>C10: the length after release\<close>

text \<open>
  C10. After \<open>Free\<close>, \<open>Len\<close> is the \<open>uint64\<close> value of the length 0 of the nil slice
  minus one, which wraps to \<open>2^64 - 1\<close> (and is not 0).
\<close>

theorem Len_Free: "unat (Len (Free l)) = 2 ^ 64 - 1 \<and> Len (Free l) \<noteq> 0"
  by (simp add: Len_def Free_def unsigned_minus_1_eq_mask mask_eq_exp_minus_1)

end
